theory Spec2Isabelle
  imports Complex_Main "HOL-Library.Sublist"
begin

section \<open>The telemetry server: data\<close>

text \<open>
  The development embeds \<^verbatim>\<open>handleClient\<close> of \<^verbatim>\<open>Source.cpp\<close>. A \<^verbatim>\<open>time_t\<close> is
  modelled by an \<open>int\<close> (seconds), a \<^verbatim>\<open>std::string\<close> and a received chunk by a
  \<open>string\<close> (a list of bytes). The fuel of a parsed record, a finite \<^verbatim>\<open>double\<close>, is
  a \<open>real\<close>, and so are the fuels the flight data copy from it; what the handler
  computes from them is a \<open>double\<close> of the section on double arithmetic, which may be
  infinite.
\<close>

type_synonym time_t = int

text \<open>\<^verbatim>\<open>struct tm\<close> of the C library.\<close>

record tm =
  tm_sec :: int
  tm_min :: int
  tm_hour :: int
  tm_mday :: int
  tm_mon :: int
  tm_year :: int
  tm_wday :: int
  tm_yday :: int
  tm_isdst :: int

text \<open>\<^verbatim>\<open>TelemetryDataPoint\<close>, as \<^verbatim>\<open>handleClient\<close> uses it: a broken-down time and the fuel.\<close>

record TelemetryDataPoint =
  timestamp :: tm
  fuelRemaining :: real

record FlightData =
  startTime :: time_t
  startFuel :: real
  lastTime :: time_t
  lastFuel :: real
  firstData :: bool

text \<open>The constructor \<^verbatim>\<open>FlightData()\<close>.\<close>

definition FlightData_init :: FlightData where
  "FlightData_init =
     \<lparr>startTime = 0, startFuel = 0, lastTime = 0, lastFuel = 0, firstData = True\<rparr>"

text \<open>
  What \<^verbatim>\<open>handleClient\<close> takes from outside \<^verbatim>\<open>Source.cpp\<close>: \<^verbatim>\<open>trim\<close> and
  \<^verbatim>\<open>parseTelemetryData\<close> of \<^verbatim>\<open>Parse.h\<close>, and \<^verbatim>\<open>mktime\<close> of the C library. They
  are parameters of the model. \<open>trim\<close> returns the trimmed copy of the line and leaves
  the line as it is; the parser returns \<open>None\<close> where the C++ one returns false, and the
  fuel of a parsed record is a finite number (the specification has the parser reject any
  other); \<open>mktime\<close> returns the calendar time and the broken-down time as it leaves it,
  normalised in place.
\<close>

record externals =
  trim :: "string \<Rightarrow> string"
  parseTelemetryData :: "string \<Rightarrow> TelemetryDataPoint option"
  mktime :: "tm \<Rightarrow> time_t \<times> tm"

section \<open>Strings and the socket\<close>

definition newline :: char where
  "newline = CHR 0x0A"

definition NUL :: char where
  "NUL = CHR 0x00"

text \<open>\<^verbatim>\<open>s.find(c)\<close>: the index of the first occurrence, \<open>None\<close> for \<^verbatim>\<open>npos\<close>.\<close>

primrec find_char :: "char \<Rightarrow> string \<Rightarrow> nat option" where
  "find_char c [] = None"
| "find_char c (x # xs) = (if x = c then Some 0 else map_option Suc (find_char c xs))"

text \<open>
  \<^verbatim>\<open>buffer[bytesReceived] = '\0'; recvBuffer += buffer;\<close> appends the received bytes as
  a C string: the bytes before the first NUL.
\<close>

definition c_str :: "string \<Rightarrow> string" where
  "c_str chunk = takeWhile (\<lambda>c. c \<noteq> NUL) chunk"

text \<open>
  The socket is the list of the results of the calls of \<^verbatim>\<open>recv\<close> still to come: each
  element is the bytes one call returns (at most \<^verbatim>\<open>BUFFER_SIZE - 1\<close> of them; nothing
  below depends on that bound). The empty chunk is a call that returns \<open>0\<close> or less, and
  so is every call once the list is used up.
\<close>

type_synonym socket = "string list"

section \<open>Double arithmetic\<close>

text \<open>
  A \<^verbatim>\<open>double\<close> by its value: a finite number, an infinity or NaN (the two zeros are one
  value). The format is IEEE 754 binary64: 53 bits of precision, exponents from \<open>-1022\<close>
  to \<open>1023\<close>.
\<close>

datatype double = Finite real | PosInf | NegInf | NaN

text \<open>
  The exponent of the binade of \<open>a \<ge> 0\<close>: the \<open>e\<close> with \<open>2 powi e \<le> a < 2 powi (e + 1)\<close>,
  kept between \<open>-1022\<close> (below it the numbers are subnormal) and \<open>1023\<close>. It is searched
  upwards from \<open>0\<close> when \<open>1 \<le> a\<close> and downwards otherwise.
\<close>

fun binade_up :: "nat \<Rightarrow> int \<Rightarrow> real \<Rightarrow> int" where
  "binade_up 0 e a = e"
| "binade_up (Suc n) e a = (if 2 powi (e + 1) \<le> a then binade_up n (e + 1) a else e)"

fun binade_down :: "nat \<Rightarrow> int \<Rightarrow> real \<Rightarrow> int" where
  "binade_down 0 e a = e"
| "binade_down (Suc n) e a = (if a < 2 powi e then binade_down n (e - 1) a else e)"

definition binade :: "real \<Rightarrow> int" where
  "binade a = (if 1 \<le> a then binade_up 1023 0 a else binade_down 1022 0 a)"

text \<open>Rounding to the nearest integer, a tie to the even one.\<close>

definition round_half_even :: "real \<Rightarrow> int" where
  "round_half_even m =
     (let f = \<lfloor>m\<rfloor>; d = m - of_int f
      in if d < 1 / 2 then f else if 1 / 2 < d then f + 1 else if even f then f else f + 1)"

text \<open>
  The double nearest to \<open>x\<close>, with the exponent range unbounded above: zero is
  itself, and another \<open>x\<close> is rounded to a multiple of the unit in the last place of
  its binade.
\<close>

definition nearest_double :: "real \<Rightarrow> real" where
  "nearest_double x =
     (if x = 0 then 0
      else (let q = 2 powi (binade \<bar>x\<bar> - 52) in q * of_int (round_half_even (x / q))))"

text \<open>
  The result of an operation whose exact value is \<open>x\<close>: an infinity when the rounded
  magnitude would reach \<open>2 ^ 1024\<close>, that is from the midpoint between the largest
  double \<open>2 ^ 1024 - 2 ^ 971\<close> and \<open>2 ^ 1024\<close> on.
\<close>

definition overflow_threshold :: real where
  "overflow_threshold = 2 ^ 1024 - 2 ^ 970"

definition round_double :: "real \<Rightarrow> double" where
  "round_double x =
     (if overflow_threshold \<le> \<bar>x\<bar> then (if 0 < x then PosInf else NegInf)
      else Finite (nearest_double x))"

text \<open>The difference of two finite doubles.\<close>

definition double_sub :: "real \<Rightarrow> real \<Rightarrow> double" where
  "double_sub x y = round_double (x - y)"

text \<open>
  The quotient of two doubles. A zero divisor is taken as \<open>+0\<close>; the handler divides
  only by a positive number.
\<close>

fun double_div :: "double \<Rightarrow> double \<Rightarrow> double" where
  "double_div NaN y = NaN"
| "double_div x NaN = NaN"
| "double_div (Finite x) (Finite y) =
     (if y = 0 then (if x = 0 then NaN else if 0 < x then PosInf else NegInf)
      else round_double (x / y))"
| "double_div (Finite x) y = Finite 0"
| "double_div PosInf (Finite y) = (if 0 \<le> y then PosInf else NegInf)"
| "double_div NegInf (Finite y) = (if 0 \<le> y then NegInf else PosInf)"
| "double_div x y = NaN"

text \<open>The comparison \<^verbatim>\<open>x > 0\<close>, false of NaN.\<close>

fun double_gt0 :: "double \<Rightarrow> bool" where
  "double_gt0 (Finite y) = (0 < y)"
| "double_gt0 PosInf = True"
| "double_gt0 NegInf = False"
| "double_gt0 NaN = False"

text \<open>\<^verbatim>\<open>difftime\<close>: the difference of two calendar times in seconds, as a double.\<close>

definition difftime :: "time_t \<Rightarrow> time_t \<Rightarrow> double" where
  "difftime time1 time0 = round_double (of_int (time1 - time0))"

section \<open>The reporting sink\<close>

text \<open>Each statement that writes to \<^verbatim>\<open>cout\<close> is one entry of the log.\<close>

datatype log_entry =
  Connected string
| Reading string tm real double
| ParseFailed string
| Ended string double

section \<open>The handler\<close>

text \<open>The body of the inner loop, for one line taken from the buffer.\<close>

definition process_line ::
  "externals \<Rightarrow> string \<Rightarrow> FlightData \<Rightarrow> string \<Rightarrow> FlightData \<times> log_entry list" where
  "process_line E ident fl line =
     (if trim E line = [] then (fl, [])
      else case parseTelemetryData E line of
        None \<Rightarrow> (fl, [ParseFailed line])
      | Some dataPoint \<Rightarrow>
          (let (currentTime, stamp) = mktime E (timestamp dataPoint);
               currentFuel = fuelRemaining dataPoint;
               (fl1, out) =
                 (if firstData fl
                  then (fl\<lparr>startTime := currentTime, startFuel := currentFuel,
                          firstData := False\<rparr>, [])
                  else
                    (let fuelConsumed = double_sub (lastFuel fl) currentFuel;
                         timeDiff = difftime currentTime (lastTime fl);
                         consumptionRate =
                           (if double_gt0 timeDiff then double_div fuelConsumed timeDiff
                            else Finite 0)
                     in (fl, [Reading ident stamp currentFuel consumptionRate])))
           in (fl1\<lparr>lastTime := currentTime, lastFuel := currentFuel\<rparr>, out)))"

lemma find_char_less: "find_char c s = Some pos \<Longrightarrow> pos < length s"
  by (induction s arbitrary: pos) (auto split: if_splits)

text \<open>
  The inner loop: while the buffer holds a newline, the line before it is taken out and
  processed. The result is the flight data, the buffer left, the values \<^verbatim>\<open>line\<close> took
  (in order; they are not part of the program's state and are kept to state what the
  loop frames) and the entries written.
\<close>

function process_buffer ::
  "externals \<Rightarrow> string \<Rightarrow> FlightData \<Rightarrow> string \<Rightarrow>
     FlightData \<times> string \<times> string list \<times> log_entry list" where
  "process_buffer E ident fl buf =
     (case find_char newline buf of
        None \<Rightarrow> (fl, buf, [], [])
      | Some lineEnd \<Rightarrow>
          (let line = take lineEnd buf;
               (fl1, out1) = process_line E ident fl line;
               (fl2, rest, ls, out2) = process_buffer E ident fl1 (drop (lineEnd + 1) buf)
           in (fl2, rest, line # ls, out1 @ out2)))"
  by pat_completeness auto
termination
  by (relation "measure (\<lambda>(E, ident, fl, buf). length buf)")
     (auto dest: find_char_less)

declare process_buffer.simps [simp del]

text \<open>The outer loop: one round per call of \<^verbatim>\<open>recv\<close> that returns bytes.\<close>

fun stream_loop ::
  "externals \<Rightarrow> string \<Rightarrow> FlightData \<Rightarrow> string \<Rightarrow> socket \<Rightarrow>
     FlightData \<times> string \<times> string list \<times> log_entry list" where
  "stream_loop E ident fl buf [] = (fl, buf, [], [])"
| "stream_loop E ident fl buf (chunk # sock) =
     (if int (length chunk) > 0
      then
        (let (fl1, buf1, ls1, out1) = process_buffer E ident fl (buf @ c_str chunk);
             (fl2, buf2, ls2, out2) = stream_loop E ident fl1 buf1 sock
         in (fl2, buf2, ls1 @ ls2, out1 @ out2))
      else (fl, buf, [], []))"

text \<open>
  The first loop: chunks are appended until the buffer holds a newline. \<open>None\<close> is the
  early return, when \<^verbatim>\<open>recv\<close> returns \<open>0\<close> or less before that.
\<close>

fun read_id :: "string \<Rightarrow> socket \<Rightarrow> (string \<times> socket) option" where
  "read_id buf [] = (if find_char newline buf = None then None else Some (buf, []))"
| "read_id buf (chunk # sock) =
     (if find_char newline buf = None
      then (if int (length chunk) \<le> 0 then None else read_id (buf @ c_str chunk) sock)
      else Some (buf, chunk # sock))"

text \<open>The average of the flight, computed when the connection ends.\<close>

definition averageConsumption :: "FlightData \<Rightarrow> double" where
  "averageConsumption fl =
     (let totalFuelConsumed = double_sub (startFuel fl) (lastFuel fl);
          totalTime = difftime (lastTime fl) (startTime fl)
      in if double_gt0 totalTime then double_div totalFuelConsumed totalTime else Finite 0)"

text \<open>
  \<^verbatim>\<open>substr(0, pos)\<close> and \<^verbatim>\<open>erase(0, pos + 1)\<close>, with \<^verbatim>\<open>npos\<close> as \<open>None\<close>: for
  \<^verbatim>\<open>npos\<close> the first is the whole string and the second erases nothing, since
  \<^verbatim>\<open>npos + 1\<close> is \<open>0\<close>.
\<close>

definition substr0 :: "string \<Rightarrow> nat option \<Rightarrow> string" where
  "substr0 s pos = (case pos of None \<Rightarrow> s | Some p \<Rightarrow> take p s)"

definition erase0_succ :: "string \<Rightarrow> nat option \<Rightarrow> string" where
  "erase0_succ s pos = (case pos of None \<Rightarrow> s | Some p \<Rightarrow> drop (p + 1) s)"

text \<open>
  A session when the handler returns: the identifier, the flight data, the receive
  buffer, the lines the inner loop took from the buffer and the entries written, in
  order.
\<close>

record session =
  uniqueID :: string
  flight :: FlightData
  recvBuffer :: string
  lines :: "string list"
  written :: "log_entry list"

text \<open>\<^verbatim>\<open>handleClient\<close>; \<open>None\<close> is the early return of the first loop.\<close>

definition handleClient :: "externals \<Rightarrow> socket \<Rightarrow> session option" where
  "handleClient E sock =
     (case read_id [] sock of
        None \<Rightarrow> None
      | Some (buf, sock1) \<Rightarrow>
          (let pos = find_char newline buf;
               ident = substr0 buf pos;
               buf1 = erase0_succ buf pos;
               (fl, buf2, ls, out) = stream_loop E ident FlightData_init buf1 sock1
           in Some \<lparr>uniqueID = ident, flight = fl, recvBuffer = buf2, lines = ls,
                 written = Connected ident # out @ [Ended ident (averageConsumption fl)]\<rparr>))"

section \<open>The text written to the console\<close>

text \<open>
  \<^verbatim>\<open>asctime\<close> of the C library, as the C standard defines it: the result of
  \<^verbatim>\<open>sprintf\<close> with the format \<^verbatim>\<open>"%.3s %.3s%3d %.2d:%.2d:%.2d %d\n"\<close>. A day of the week
  or a month out of range, undefined in C, is printed as \<^verbatim>\<open>???\<close> here.
\<close>

fun digits :: "nat \<Rightarrow> string" where
  "digits n =
     (if n < 10 then [''0123456789'' ! n]
      else digits (n div 10) @ [''0123456789'' ! (n mod 10)])"

declare digits.simps [simp del]

definition pad_left :: "nat \<Rightarrow> char \<Rightarrow> string \<Rightarrow> string" where
  "pad_left w c s = replicate (w - length s) c @ s"

text \<open>\<^verbatim>\<open>%d\<close> with a minimal number of digits (the precision) and a minimal width.\<close>

definition printf_d :: "nat \<Rightarrow> nat \<Rightarrow> int \<Rightarrow> string" where
  "printf_d width prec i =
     pad_left width (CHR '' '')
       ((if i < 0 then ''-'' else []) @ pad_left prec (CHR ''0'') (digits (nat \<bar>i\<bar>)))"

definition wday_name :: "string list" where
  "wday_name = [''Sun'', ''Mon'', ''Tue'', ''Wed'', ''Thu'', ''Fri'', ''Sat'']"

definition mon_name :: "string list" where
  "mon_name = [''Jan'', ''Feb'', ''Mar'', ''Apr'', ''May'', ''Jun'',
               ''Jul'', ''Aug'', ''Sep'', ''Oct'', ''Nov'', ''Dec'']"

definition name_at :: "string list \<Rightarrow> int \<Rightarrow> string" where
  "name_at names i = (if 0 \<le> i \<and> i < int (length names) then names ! nat i else ''???'')"

definition asctime :: "tm \<Rightarrow> string" where
  "asctime t =
     name_at wday_name (tm_wday t) @ '' '' @ name_at mon_name (tm_mon t)
       @ printf_d 3 1 (tm_mday t) @ '' ''
       @ printf_d 0 2 (tm_hour t) @ '':'' @ printf_d 0 2 (tm_min t) @ '':''
       @ printf_d 0 2 (tm_sec t) @ '' '' @ printf_d 0 1 (1900 + tm_year t) @ [newline]"

text \<open>
  The characters one statement sends to \<^verbatim>\<open>cout\<close>. How the stream prints a
  \<^verbatim>\<open>double\<close> is the parameter \<open>show_double\<close>; \<^verbatim>\<open>endl\<close> is a newline.
\<close>

fun cout_text :: "(double \<Rightarrow> string) \<Rightarrow> log_entry \<Rightarrow> string" where
  "cout_text show_double (Connected ident) =
     ''Connected client, airplane ID: '' @ ident @ [newline]"
| "cout_text show_double (Reading ident stamp currentFuel consumptionRate) =
     ''Airplane '' @ ident @ '' | '' @ asctime stamp
       @ '' Fuel Remaining: '' @ show_double (Finite currentFuel)
       @ '' | Current Consumption: '' @ show_double consumptionRate @ '' fuel/sec''
       @ [newline]"
| "cout_text show_double (ParseFailed line) =
     ''Failed to parse telemetry data: '' @ line @ [newline]"
| "cout_text show_double (Ended ident average) =
     ''Flight for airplane '' @ ident @ '' ended. Average Fuel Consumption: ''
       @ show_double average @ '' fuel/sec'' @ [newline]"

section \<open>Readings, records and received bytes\<close>

text \<open>
  The reading a line gives when the handler accepts it: the line is not blank after
  trimming and the parser accepts it; the time is the one \<^verbatim>\<open>mktime\<close> returns.
\<close>

definition reading_of :: "externals \<Rightarrow> string \<Rightarrow> (time_t \<times> real) option" where
  "reading_of E line =
     (if trim E line = [] then None
      else case parseTelemetryData E line of
             None \<Rightarrow> None
           | Some dataPoint \<Rightarrow>
               Some (fst (mktime E (timestamp dataPoint)), fuelRemaining dataPoint))"

fun readings :: "externals \<Rightarrow> string list \<Rightarrow> (time_t \<times> real) list" where
  "readings E [] = []"
| "readings E (line # ls) =
     (case reading_of E line of None \<Rightarrow> readings E ls | Some r \<Rightarrow> r # readings E ls)"

text \<open>The rates the per-reading entries of a log carry, in order, and how many there are.\<close>

fun rates :: "log_entry list \<Rightarrow> double list" where
  "rates [] = []"
| "rates (Reading ident stamp fuel rate # es) = rate # rates es"
| "rates (e # es) = rates es"

text \<open>
  The rate between two consecutive readings, as the specification gives it: the fuel
  consumed over the elapsed time, in double arithmetic, when the elapsed time is
  positive, and \<open>0\<close> otherwise.
\<close>

definition rate_between :: "time_t \<times> real \<Rightarrow> time_t \<times> real \<Rightarrow> double" where
  "rate_between prev cur =
     (if fst cur - fst prev > 0
      then double_div (double_sub (snd prev) (snd cur)) (difftime (fst cur) (fst prev))
      else Finite 0)"

text \<open>
  The bytes the transport delivers before the stream ends (the first call of
  \<^verbatim>\<open>recv\<close> that returns no bytes), and the bytes of them that reach the buffer.
\<close>

definition delivered :: "socket \<Rightarrow> string list" where
  "delivered sock = takeWhile (\<lambda>chunk. chunk \<noteq> []) sock"

definition received :: "socket \<Rightarrow> string" where
  "received sock = concat (delivered sock)"

definition buffered :: "socket \<Rightarrow> string" where
  "buffered sock = concat (map c_str (delivered sock))"


text \<open>A record followed by its newline, and a sequence of them.\<close>

definition terminated :: "string list \<Rightarrow> string" where
  "terminated ls = concat (map (\<lambda>l. l @ [newline]) ls)"

text \<open>
  The inner loop on lines already framed: the entries and the flight data that processing
  the lines one after the other gives.
\<close>

fun process_lines ::
  "externals \<Rightarrow> string \<Rightarrow> FlightData \<Rightarrow> string list \<Rightarrow> FlightData \<times> log_entry list" where
  "process_lines E ident fl [] = (fl, [])"
| "process_lines E ident fl (line # ls) =
     (let (fl1, out1) = process_line E ident fl line;
          (fl2, out2) = process_lines E ident fl1 ls
      in (fl2, out1 @ out2))"

text \<open>
  The flight data that a sequence of accepted readings determines: the first one as the
  start, the last one as the last.
\<close>

definition flight_after :: "(time_t \<times> real) list \<Rightarrow> FlightData" where
  "flight_after rs =
     (if rs = [] then FlightData_init
      else \<lparr>startTime = fst (hd rs), startFuel = snd (hd rs),
            lastTime = fst (last rs), lastFuel = snd (last rs), firstData = False\<rparr>)"

text \<open>A record is malformed when it is not blank after trimming and the parser rejects it.\<close>

definition malformed :: "externals \<Rightarrow> string \<Rightarrow> bool" where
  "malformed E line \<longleftrightarrow> trim E line \<noteq> [] \<and> parseTelemetryData E line = None"


section \<open>An instance of the externals and a sample session\<close>

text \<open>
  An instance to run the handler on: \<open>trim_spaces\<close> removes leading and trailing white
  space, the parser is a table of three records, and \<open>clock_seconds\<close> stands in for
  \<^verbatim>\<open>mktime\<close>: it counts the seconds from the midnight of the day and leaves the
  broken-down time as it is. The times are those of 15 January 1970 (a Thursday), which
  \<open>clock\<close> builds from the seconds since midnight.
\<close>

definition isspace :: "char \<Rightarrow> bool" where
  "isspace c \<longleftrightarrow> c \<in> set [CHR '' '', CHR 0x09, CHR 0x0A, CHR 0x0B, CHR 0x0C, CHR 0x0D]"

definition trim_spaces :: "string \<Rightarrow> string" where
  "trim_spaces s = rev (dropWhile isspace (rev (dropWhile isspace s)))"

definition clock :: "int \<Rightarrow> tm" where
  "clock n = \<lparr>tm_sec = n mod 60, tm_min = (n div 60) mod 60, tm_hour = n div 3600,
      tm_mday = 15, tm_mon = 0, tm_year = 70, tm_wday = 4, tm_yday = 14, tm_isdst = 0\<rparr>"

definition clock_seconds :: "tm \<Rightarrow> time_t \<times> tm" where
  "clock_seconds t = (3600 * tm_hour t + 60 * tm_min t + tm_sec t, t)"

definition sample_externals :: externals where
  "sample_externals =
     \<lparr>trim = trim_spaces,
      parseTelemetryData = map_of
        [(''0,100'', \<lparr>timestamp = clock 0, fuelRemaining = 100\<rparr>),
         (''10,95'', \<lparr>timestamp = clock 10, fuelRemaining = 95\<rparr>),
         (''20,88'', \<lparr>timestamp = clock 20, fuelRemaining = 88\<rparr>)],
      mktime = clock_seconds\<rparr>"

definition sample_socket :: socket where
  "sample_socket =
     [''N12AB\<newline>'', ''0,100\<newline>10,9'', ''5\<newline>junk\<newline>  \<newline>20,88\<newline>tail'']"

definition sample_session :: session where
  "sample_session =
     \<lparr>uniqueID = ''N12AB'',
      flight = \<lparr>startTime = 0, startFuel = 100, lastTime = 20, lastFuel = 88,
                 firstData = False\<rparr>,
      recvBuffer = ''tail'',
      lines = [''0,100'', ''10,95'', ''junk'', ''  '', ''20,88''],
      written =
        [Connected ''N12AB'',
         Reading ''N12AB'' (clock 10) 95 (Finite (1 / 2)),
         ParseFailed ''junk'',
         Reading ''N12AB'' (clock 20) 88 (Finite (3152519739159347 / 4503599627370496)),
         Ended ''N12AB'' (Finite (5404319552844595 / 9007199254740992))]\<rparr>"

text \<open>
  Further sockets and the sessions the handler returns on them: one accepted reading
  after a malformed record; the sample session without its malformed record, split into
  other chunks; an identifier with white space and a carriage return, and a NUL in a
  later chunk.
\<close>

definition single_socket :: socket where
  "single_socket = [''N12AB\<newline>'', ''junk\<newline>10,95\<newline>'']"

definition single_session :: session where
  "single_session =
     \<lparr>uniqueID = ''N12AB'',
      flight = \<lparr>startTime = 10, startFuel = 95, lastTime = 10, lastFuel = 95,
                 firstData = False\<rparr>,
      recvBuffer = [],
      lines = [''junk'', ''10,95''],
      written = [Connected ''N12AB'', ParseFailed ''junk'', Ended ''N12AB'' (Finite 0)]\<rparr>"



definition padded_socket :: socket where
  "padded_socket =
     [''  N12'', ''AB '' @ CHR 0x0D # ''\<newline>0,100\<newline>'', ''10,9'' @ NUL # ''5\<newline>'']"

definition padded_session :: session where
  "padded_session =
     \<lparr>uniqueID = ''  N12AB '' @ [CHR 0x0D],
      flight = \<lparr>startTime = 0, startFuel = 100, lastTime = 0, lastFuel = 100,
                 firstData = False\<rparr>,
      recvBuffer = ''10,9'',
      lines = [''0,100''],
      written =
        [Connected (''  N12AB '' @ [CHR 0x0D]),
         Ended (''  N12AB '' @ [CHR 0x0D]) (Finite 0)]\<rparr>"

text \<open>
  Two records with the fuels \<open>- 2 ^ 1023\<close> and \<open>2 ^ 1023\<close>, both doubles, ten seconds
  apart.
\<close>

definition huge :: real where
  "huge = 2 ^ 1023"

definition overflow_externals :: externals where
  "overflow_externals =
     \<lparr>trim = trim_spaces,
      parseTelemetryData = map_of
        [(''lo'', \<lparr>timestamp = clock 0, fuelRemaining = - huge\<rparr>),
         (''hi'', \<lparr>timestamp = clock 10, fuelRemaining = huge\<rparr>)],
      mktime = clock_seconds\<rparr>"

section \<open>Rounding lemmas\<close>

lemma overflow_threshold_code [code]:
  "overflow_threshold = 179769313486231580793728971405303415079934132710037826936173778980444968292764750946649017977587207096330286416692887910946555547851940402630657488671505820681908902000708383676273854845817711531764475730270069855571366959622842914819860834936475292719074168444365510704342711559699508093042880177904174497792"
  by (simp add: overflow_threshold_def)

lemma binade_up_spec:
  "2 powi e \<le> a \<Longrightarrow>
     e \<le> binade_up n e a \<and> binade_up n e a \<le> e + int n \<and> 2 powi (binade_up n e a) \<le> a
     \<and> (binade_up n e a < e + int n \<longrightarrow> a < 2 powi (binade_up n e a + 1))"
proof (induction n arbitrary: e)
  case 0
  then show ?case by simp
next
  case (Suc n)
  show ?case
  proof (cases "2 powi (e + 1) \<le> a")
    case True
    from Suc.IH[OF True] True show ?thesis by auto
  next
    case False
    with Suc.prems show ?thesis by auto
  qed
qed

lemma binade_down_spec:
  "a < 2 powi (e + 1) \<Longrightarrow>
     binade_down n e a \<le> e \<and> e - int n \<le> binade_down n e a
     \<and> a < 2 powi (binade_down n e a + 1)"
proof (induction n arbitrary: e)
  case 0
  then show ?case by simp
next
  case (Suc n)
  show ?case
  proof (cases "a < 2 powi e")
    case True
    then have "a < 2 powi (e - 1 + 1)" by simp
    from Suc.IH[OF this] True show ?thesis by auto
  next
    case False
    with Suc.prems show ?thesis by auto
  qed
qed

lemma binade_range: "- 1022 \<le> binade a \<and> binade a \<le> 1023"
proof (cases "1 \<le> a")
  case True
  then have "2 powi 0 \<le> a" by simp
  from binade_up_spec[OF this, of 1023] True show ?thesis by (simp add: binade_def)
next
  case False
  then have "a < 2 powi (0 + 1)" by simp
  from binade_down_spec[OF this, of 1022] False show ?thesis by (simp add: binade_def)
qed

lemma binade_upper: "binade a < 1023 \<Longrightarrow> a < 2 powi (binade a + 1)"
proof (cases "1 \<le> a")
  case True
  assume b: "binade a < 1023"
  from True have "2 powi 0 \<le> a" by simp
  from binade_up_spec[OF this, of 1023] True b show ?thesis by (simp add: binade_def)
next
  case False
  then have "a < 2 powi (0 + 1)" by simp
  from binade_down_spec[OF this, of 1022] False show ?thesis by (simp add: binade_def)
qed

lemma binade_lower: "1 \<le> a \<Longrightarrow> 0 \<le> binade a \<and> 2 powi (binade a) \<le> a"
proof -
  assume a: "1 \<le> a"
  then have "2 powi 0 \<le> a" by simp
  from binade_up_spec[OF this, of 1023] a show ?thesis by (simp add: binade_def)
qed

lemma round_half_even_le: "m \<le> of_int k \<Longrightarrow> round_half_even m \<le> k"
proof -
  assume m: "m \<le> of_int k"
  then have f: "\<lfloor>m\<rfloor> \<le> k" by (simp add: floor_le_iff)
  show ?thesis
  proof (cases "m = of_int \<lfloor>m\<rfloor>")
    case True
    then have "m - of_int \<lfloor>m\<rfloor> = 0" by simp
    then show ?thesis using f by (simp add: round_half_even_def Let_def)
  next
    case False
    then have "of_int \<lfloor>m\<rfloor> < m" using of_int_floor_le[of m] by linarith
    with m have "\<lfloor>m\<rfloor> < k" by linarith
    then show ?thesis by (auto simp: round_half_even_def Let_def)
  qed
qed

lemma round_half_even_ge: "of_int k \<le> m \<Longrightarrow> k \<le> round_half_even m"
proof -
  assume "of_int k \<le> m"
  then have "k \<le> \<lfloor>m\<rfloor>" by (simp add: le_floor_iff)
  then show ?thesis by (auto simp: round_half_even_def Let_def)
qed

lemma round_half_even_below_half: "m < of_int k + 1 / 2 \<Longrightarrow> round_half_even m \<le> k"
proof -
  assume m: "m < of_int k + 1 / 2"
  then have "m < of_int (k + 1)" by simp
  then have "\<lfloor>m\<rfloor> < k + 1" by (simp only: floor_less_iff)
  then have f: "\<lfloor>m\<rfloor> \<le> k" by simp
  show ?thesis
  proof (cases "\<lfloor>m\<rfloor> = k")
    case True
    with m have "m - of_int \<lfloor>m\<rfloor> < 1 / 2" by simp
    then show ?thesis using True by (simp add: round_half_even_def Let_def)
  next
    case False
    with f have "\<lfloor>m\<rfloor> < k" by simp
    then show ?thesis by (auto simp: round_half_even_def Let_def)
  qed
qed

lemma round_half_even_above_half: "of_int k - 1 / 2 < m \<Longrightarrow> k \<le> round_half_even m"
proof -
  assume m: "of_int k - 1 / 2 < m"
  then have "of_int (k - 1) \<le> m" by simp
  then have f: "k - 1 \<le> \<lfloor>m\<rfloor>" by (simp only: le_floor_iff)
  show ?thesis
  proof (cases "\<lfloor>m\<rfloor> = k - 1")
    case True
    with m have "1 / 2 < m - of_int \<lfloor>m\<rfloor>" by simp
    then show ?thesis using True by (simp add: round_half_even_def Let_def)
  next
    case False
    with f have "k \<le> \<lfloor>m\<rfloor>" by simp
    then show ?thesis by (auto simp: round_half_even_def Let_def)
  qed
qed

lemma ulp_times: "2 powi (e - 52) * 2 ^ 53 = (2::real) powi (e + 1)"
proof -
  have "(2::real) powi ((e - 52) + 53) = 2 powi (e - 52) * 2 powi 53"
    by (rule power_int_add) simp
  moreover have "(e - 52) + 53 = e + 1" by simp
  ultimately have "(2::real) powi (e + 1) = 2 powi (e - 52) * 2 powi 53" by (simp only:)
  then show ?thesis by (simp only: power_int_numeral)
qed

lemma ulp_times': "2 powi (e - 52) * 2 ^ 52 = (2::real) powi e"
proof -
  have "(2::real) powi ((e - 52) + 52) = 2 powi (e - 52) * 2 powi 52"
    by (rule power_int_add) simp
  moreover have "(e - 52) + 52 = e" by simp
  ultimately have "(2::real) powi e = 2 powi (e - 52) * 2 powi 52" by (simp only:)
  then show ?thesis by (simp only: power_int_numeral)
qed

lemma scaled_round_bound:
  assumes q: "0 < q" and b: "\<bar>x\<bar> \<le> q * of_int k"
  shows "\<bar>q * of_int (round_half_even (x / q))\<bar> \<le> q * of_int k"
proof -
  from b have "x \<le> of_int k * q" "of_int (- k) * q \<le> x"
    by (simp_all add: mult.commute abs_le_iff) 
  with q have "x / q \<le> of_int k" "of_int (- k) \<le> x / q"
    by (simp_all only: pos_divide_le_eq pos_le_divide_eq)
  then have "round_half_even (x / q) \<le> k" "- k \<le> round_half_even (x / q)"
    by (simp_all only: round_half_even_le round_half_even_ge)
  then have "\<bar>real_of_int (round_half_even (x / q))\<bar> \<le> of_int k"
    by linarith
  with q show ?thesis by (simp add: abs_mult)
qed

lemma nearest_double_bound:
  assumes "\<bar>x\<bar> < overflow_threshold"
  shows "\<bar>nearest_double x\<bar> \<le> 2 ^ 1024 - 2 ^ 971"
proof (cases "x = 0")
  case True
  then show ?thesis by (simp add: nearest_double_def)
next
  case nz: False
  define e where "e = binade \<bar>x\<bar>"
  define q :: real where "q = 2 powi (e - 52)"
  have q: "0 < q" by (simp add: q_def)
  have nd: "nearest_double x = q * of_int (round_half_even (x / q))"
    using nz by (simp add: nearest_double_def Let_def q_def e_def)
  from binade_range[of "\<bar>x\<bar>"] have e: "e \<le> 1023" by (simp add: e_def)
  show ?thesis
  proof (cases "e = 1023")
    case True
    then have qv: "q = 2 ^ 971" by (simp add: q_def)
    have thr: "overflow_threshold = q * of_int (2 ^ 53 - 1) + q / 2"
      by (simp add: qv overflow_threshold_def)
    from assms have "x < (of_int (2 ^ 53 - 1) + 1 / 2) * q" "(of_int (- (2 ^ 53 - 1)) - 1 / 2) * q < x"
      unfolding thr by (simp_all only: abs_less_iff) (simp_all add: algebra_simps)
    with q have "x / q < of_int (2 ^ 53 - 1) + 1 / 2" "of_int (- (2 ^ 53 - 1)) - 1 / 2 < x / q"
      by (simp_all only: pos_divide_less_eq pos_less_divide_eq)
    then have "round_half_even (x / q) \<le> 2 ^ 53 - 1" "- (2 ^ 53 - 1) \<le> round_half_even (x / q)"
      by (simp_all only: round_half_even_below_half round_half_even_above_half)
    then have "\<bar>real_of_int (round_half_even (x / q))\<bar> \<le> of_int (2 ^ 53 - 1)"
      by linarith
    then have "\<bar>q * of_int (round_half_even (x / q))\<bar> \<le> q * of_int (2 ^ 53 - 1)"
      using q by (simp only: abs_mult abs_of_pos mult_le_cancel_left_pos)
    also have "\<dots> = 2 ^ 1024 - 2 ^ 971" by (simp add: qv)
    finally show ?thesis by (simp only: nd)
  next
    case False
    with e have lt: "e < 1023" by simp
    then have "\<bar>x\<bar> < 2 powi (e + 1)"
      using binade_upper[of "\<bar>x\<bar>"] by (simp add: e_def)
    then have "\<bar>x\<bar> \<le> q * of_int (2 ^ 53)"
      using ulp_times[of e] by (simp add: q_def)
    from scaled_round_bound[OF q this]
    have "\<bar>nearest_double x\<bar> \<le> q * of_int (2 ^ 53)"
      by (simp only: nd)
    also have "\<dots> = 2 powi (e + 1)"
      using ulp_times[of e] by (simp add: q_def)
    also have "\<dots> \<le> (2::real) powi 1023"
      using lt by (intro power_int_increasing) simp_all
    also have "\<dots> \<le> 2 ^ 1024 - 2 ^ 971" by simp
    finally show ?thesis .
  qed
qed

lemma nearest_double_ge_1:
  assumes "1 \<le> x"
  shows "1 \<le> nearest_double x"
proof -
  define e where "e = binade \<bar>x\<bar>"
  define q :: real where "q = 2 powi (e - 52)"
  have q: "0 < q" by (simp add: q_def)
  have nd: "nearest_double x = q * of_int (round_half_even (x / q))"
    using assms by (simp add: nearest_double_def Let_def q_def e_def)
  from assms binade_lower[of "\<bar>x\<bar>"] have e: "0 \<le> e" "2 powi e \<le> x"
    by (simp_all add: e_def)
  then have "of_int (2 ^ 52) * q \<le> x"
    using ulp_times'[of e] by (simp add: q_def mult.commute)
  with q have "of_int (2 ^ 52) \<le> x / q"
    by (simp only: pos_le_divide_eq)
  then have "2 ^ 52 \<le> round_half_even (x / q)"
    by (rule round_half_even_ge)
  then have "real_of_int (2 ^ 52) \<le> of_int (round_half_even (x / q))"
    by (simp only: of_int_le_iff)
  then have "(2 ^ 52 :: real) \<le> of_int (round_half_even (x / q))"
    by simp
  then have "q * 2 ^ 52 \<le> q * of_int (round_half_even (x / q))"
    using q by (simp only: mult_le_cancel_left_pos)
  then have "2 powi e \<le> nearest_double x"
    using ulp_times'[of e] by (simp only: nd q_def)
  moreover have "(1::real) \<le> 2 powi e"
    using e(1) by (simp add: power_int_def)
  ultimately show ?thesis by linarith
qed

lemma nearest_double_nonpos:
  assumes "x \<le> 0"
  shows "nearest_double x \<le> 0"
proof -
  define q :: real where "q = 2 powi (binade \<bar>x\<bar> - 52)"
  have q: "0 < q" by (simp add: q_def)
  from assms q have "x / q \<le> of_int 0" by (simp add: divide_nonpos_pos)
  then have "round_half_even (x / q) \<le> 0" by (rule round_half_even_le)
  then have "q * of_int (round_half_even (x / q)) \<le> 0"
    using q by (simp add: mult_le_0_iff)
  then show ?thesis by (simp add: nearest_double_def Let_def q_def)
qed

lemma round_double_finite:
  "\<bar>x\<bar> < overflow_threshold \<Longrightarrow>
     \<exists>r. round_double x = Finite r \<and> \<bar>r\<bar> \<le> 2 ^ 1024 - 2 ^ 971"
  using nearest_double_bound[of x] by (simp add: round_double_def)

lemma double_gt0_difftime: "double_gt0 (difftime time1 time0) \<longleftrightarrow> 0 < time1 - time0"
proof (cases "0 < time1 - time0")
  case True
  then have "1 \<le> real_of_int (time1 - time0)" by simp
  from nearest_double_ge_1[OF this] True show ?thesis
    by (simp add: difftime_def round_double_def)
next
  case False
  then have "real_of_int (time1 - time0) \<le> 0" by simp
  from nearest_double_nonpos[OF this] False show ?thesis
    by (simp add: difftime_def round_double_def)
qed

lemma difftime_positive:
  assumes "0 < time1 - time0"
  shows "difftime time1 time0 = PosInf \<or> (\<exists>y. difftime time1 time0 = Finite y \<and> 1 \<le> y)"
proof -
  from assms have "1 \<le> real_of_int (time1 - time0)" by simp
  from nearest_double_ge_1[OF this] assms show ?thesis
    by (simp add: difftime_def round_double_def)
qed

lemma quotient_finite:
  assumes "\<bar>x\<bar> < overflow_threshold" and "0 < time1 - time0"
  shows "\<exists>r. double_div (round_double x) (difftime time1 time0) = Finite r"
proof -
  from round_double_finite[OF assms(1)] obtain r where
    r: "round_double x = Finite r" "\<bar>r\<bar> \<le> 2 ^ 1024 - 2 ^ 971" by blast
  from difftime_positive[OF assms(2)] show ?thesis
  proof
    assume "difftime time1 time0 = PosInf"
    with r show ?thesis by simp
  next
    assume "\<exists>y. difftime time1 time0 = Finite y \<and> 1 \<le> y"
    then obtain y where y: "difftime time1 time0 = Finite y" "1 \<le> y" by blast
    have "\<bar>r\<bar> / y \<le> \<bar>r\<bar> / 1"
      using y(2) by (intro divide_left_mono) simp_all
    with y(2) have "\<bar>r / y\<bar> \<le> \<bar>r\<bar>" by simp
    also have "\<dots> < overflow_threshold"
      using r(2) by (simp add: overflow_threshold_def)
    finally have "\<bar>r / y\<bar> < overflow_threshold" .
    from round_double_finite[OF this] r y show ?thesis by auto
  qed
qed

lemma rate_between_finite:
  assumes "double_sub (snd prev) (snd cur) = Finite d"
  shows "\<exists>r. rate_between prev cur = Finite r"
proof -
  from assms have "\<bar>snd prev - snd cur\<bar> < overflow_threshold"
    by (auto simp: double_sub_def round_double_def split: if_splits)
  from quotient_finite[OF this, of "fst cur" "fst prev"] show ?thesis
    by (simp add: rate_between_def double_sub_def)
qed

lemma huge_code [code]:
  "huge = 89884656743115795386465259539451236680898848947115328636715040578866337902750481566354238661203768010560056939935696678829394884407208311246423715319737062188883946712432742638151109800623047059726541476042502884419075341171231440736956555270413618581675255342293149119973622969239858152417678164812112068608"
  by (simp add: huge_def)

lemma huge_below_threshold: "huge < overflow_threshold"
  by (simp add: huge_def overflow_threshold_def)

section \<open>Framing lemmas\<close>

lemma find_char_None: "find_char c s = None \<longleftrightarrow> c \<notin> set s"
  by (induction s) auto

lemma find_char_Some:
  "find_char c s = Some p \<Longrightarrow> s = take p s @ c # drop (Suc p) s \<and> c \<notin> set (take p s)"
  by (induction s arbitrary: p) (auto split: if_splits)

lemma find_char_append_nl:
  "c \<notin> set l \<Longrightarrow> find_char c (l @ c # r) = Some (length l)"
  by (induction l) auto

lemma process_buffer_no_newline:
  "newline \<notin> set rest \<Longrightarrow> process_buffer E ident fl rest = (fl, rest, [], [])"
  by (simp add: process_buffer.simps find_char_None[symmetric])

lemma process_buffer_line:
  "newline \<notin> set l \<Longrightarrow>
   process_buffer E ident fl (l @ newline # r) =
     (let (fl1, out1) = process_line E ident fl l;
          (fl2, rest, ls, out2) = process_buffer E ident fl1 r
      in (fl2, rest, l # ls, out1 @ out2))"
  by (subst process_buffer.simps) (simp add: find_char_append_nl)

lemma process_buffer_terminated:
  "\<forall>l\<in>set ls. newline \<notin> set l \<Longrightarrow> newline \<notin> set rest \<Longrightarrow>
   process_buffer E ident fl (terminated ls @ rest) =
     (fst (process_lines E ident fl ls), rest, ls, snd (process_lines E ident fl ls))"
proof (induction ls arbitrary: fl)
  case Nil
  then show ?case by (simp add: terminated_def process_buffer_no_newline)
next
  case (Cons l ls)
  have "terminated (l # ls) @ rest = l @ newline # (terminated ls @ rest)"
    by (simp add: terminated_def)
  with Cons show ?case
    by (simp add: process_buffer_line split: prod.splits)
qed

lemma process_buffer_frames:
  "process_buffer E ident fl buf = (fl', rest, ls, out) \<Longrightarrow>
   terminated ls @ rest = buf \<and> newline \<notin> set rest \<and> (\<forall>l\<in>set ls. newline \<notin> set l)"
proof (induction E ident fl buf arbitrary: fl' rest ls out rule: process_buffer.induct)
  case (1 E ident fl buf)
  show ?case
  proof (cases "find_char newline buf")
    case None
    with "1.prems" show ?thesis
      by (simp add: process_buffer.simps terminated_def find_char_None)
  next
    case (Some p)
    obtain fl1 out1 where pl: "process_line E ident fl (take p buf) = (fl1, out1)"
      by (cases "process_line E ident fl (take p buf)")
    obtain fl2 rest2 ls2 out2 where pb:
      "process_buffer E ident fl1 (drop (p + 1) buf) = (fl2, rest2, ls2, out2)"
      by (cases "process_buffer E ident fl1 (drop (p + 1) buf)") auto
    from "1.prems" Some pl pb have eqs: "rest = rest2" "ls = take p buf # ls2"
      by (auto simp: process_buffer.simps[of E ident fl buf])
    from "1.IH"[OF Some refl pl[symmetric] refl pb]
    have ih: "terminated ls2 @ rest2 = drop (p + 1) buf" "newline \<notin> set rest2"
      "\<forall>l\<in>set ls2. newline \<notin> set l" by auto
    from find_char_Some[OF Some] ih eqs show ?thesis
      by (auto simp: terminated_def)
  qed
qed

lemma process_lines_append:
  "process_lines E ident fl (xs @ ys) =
     (let (fl1, out1) = process_lines E ident fl xs;
          (fl2, out2) = process_lines E ident fl1 ys
      in (fl2, out1 @ out2))"
  by (induction xs arbitrary: fl) (auto split: prod.splits)

lemma terminated_append: "terminated (xs @ ys) = terminated xs @ terminated ys"
  by (simp add: terminated_def)

lemma process_buffer_lines:
  assumes "process_buffer E ident fl buf = (fl', rest, ls, out)"
  shows "fl' = fst (process_lines E ident fl ls)" and "out = snd (process_lines E ident fl ls)"
proof -
  from process_buffer_frames[OF assms]
  have f: "terminated ls @ rest = buf" "newline \<notin> set rest" "\<forall>l\<in>set ls. newline \<notin> set l"
    by auto
  from process_buffer_terminated[OF f(3) f(2), of E ident fl] f(1) assms
  show "fl' = fst (process_lines E ident fl ls)" and "out = snd (process_lines E ident fl ls)"
    by auto
qed

lemma process_buffer_append:
  assumes 1: "process_buffer E ident fl b = (fl1, r1, ls1, o1)"
    and 2: "process_buffer E ident fl1 (r1 @ c) = (fl2, r2, ls2, o2)"
  shows "process_buffer E ident fl (b @ c) = (fl2, r2, ls1 @ ls2, o1 @ o2)"
proof -
  from process_buffer_frames[OF 1]
  have f1: "terminated ls1 @ r1 = b" "\<forall>l\<in>set ls1. newline \<notin> set l" by auto
  from process_buffer_frames[OF 2]
  have f2: "terminated ls2 @ r2 = r1 @ c" "newline \<notin> set r2" "\<forall>l\<in>set ls2. newline \<notin> set l"
    by auto
  have dec: "b @ c = terminated (ls1 @ ls2) @ r2"
    using f1(1) f2(1) by (simp add: terminated_append)
  have nl: "\<forall>l\<in>set (ls1 @ ls2). newline \<notin> set l"
    using f1(2) f2(3) by auto
  from process_buffer_lines[OF 1] process_buffer_lines[OF 2]
  have "process_lines E ident fl (ls1 @ ls2) = (fl2, o1 @ o2)"
    by (simp add: process_lines_append split: prod.splits)
  with process_buffer_terminated[OF nl f2(2), of E ident fl] dec
  show ?thesis by simp
qed

lemma delivered_simps [simp]:
  "delivered [] = []"
  "delivered (c # sock) = (if c = [] then [] else c # delivered sock)"
  by (simp_all add: delivered_def)

lemma buffered_simps [simp]:
  "buffered [] = []"
  "buffered (c # sock) = (if c = [] then [] else c_str c @ buffered sock)"
  by (simp_all add: buffered_def)

lemma buffered_empty: "delivered sock = [] \<Longrightarrow> buffered sock = []"
  by (simp add: buffered_def)

lemma stream_loop_batch:
  "stream_loop E ident fl buf sock =
     (if delivered sock = [] then (fl, buf, [], [])
      else process_buffer E ident fl (buf @ buffered sock))"
proof (induction sock arbitrary: fl buf)
  case Nil
  then show ?case by simp
next
  case (Cons c sock)
  show ?case
  proof (cases "c = []")
    case True
    then show ?thesis by simp
  next
    case False
    obtain fl1 b1 ls1 o1 where 1: "process_buffer E ident fl (buf @ c_str c) = (fl1, b1, ls1, o1)"
      by (cases "process_buffer E ident fl (buf @ c_str c)") auto
    show ?thesis
    proof (cases "delivered sock = []")
      case True
      with False 1 Cons.IH[of fl1 b1] show ?thesis
        by (simp add: buffered_empty)
    next
      case d: False
      obtain fl2 b2 ls2 o2 where 2:
        "process_buffer E ident fl1 (b1 @ buffered sock) = (fl2, b2, ls2, o2)"
        by (cases "process_buffer E ident fl1 (b1 @ buffered sock)") auto
      from process_buffer_append[OF 1 2] False d 1 2 Cons.IH[of fl1 b1]
      show ?thesis by simp
    qed
  qed
qed

lemma stream_loop_frames:
  assumes "stream_loop E ident fl buf sock = (fl', carry, ls, out)"
  shows "terminated ls @ carry = buf @ buffered sock \<and> (\<forall>l\<in>set ls. newline \<notin> set l)"
proof (cases "delivered sock = []")
  case True
  with assms show ?thesis
    by (simp add: stream_loop_batch buffered_empty terminated_def)
next
  case False
  with assms have "process_buffer E ident fl (buf @ buffered sock) = (fl', carry, ls, out)"
    by (simp add: stream_loop_batch)
  from process_buffer_frames[OF this] show ?thesis by simp
qed

lemma read_id_None:
  "read_id buf sock = None \<longleftrightarrow> newline \<notin> set (buf @ buffered sock)"
  by (induction sock arbitrary: buf) (auto simp: find_char_None)

lemma read_id_Some:
  "read_id buf sock = Some (b', sock') \<Longrightarrow>
     newline \<in> set b' \<and> b' @ buffered sock' = buf @ buffered sock"
proof (induction sock arbitrary: buf)
  case Nil
  then show ?case by (auto simp: find_char_None split: if_splits)
next
  case (Cons c sock)
  show ?case
  proof (cases "newline \<in> set buf")
    case True
    with Cons.prems show ?thesis by (auto simp: find_char_None)
  next
    case False
    with Cons.prems have ne: "c \<noteq> []" and r: "read_id (buf @ c_str c) sock = Some (b', sock')"
      by (auto simp: find_char_None split: if_splits)
    from Cons.IH[OF r] ne show ?thesis by simp
  qed
qed

lemma takeWhile_before:
  "c \<notin> set l \<Longrightarrow> takeWhile (\<lambda>x. x \<noteq> c) (l @ c # r) = l"
  by (induction l) auto

lemma handleClient_lines:
  assumes "handleClient E sock = Some s"
  shows "uniqueID s = takeWhile (\<lambda>c. c \<noteq> newline) (buffered sock)"
    and "uniqueID s @ [newline] @ terminated (lines s) @ recvBuffer s = buffered sock"
    and "flight s = fst (process_lines E (uniqueID s) FlightData_init (lines s))"
    and "written s = Connected (uniqueID s)
           # snd (process_lines E (uniqueID s) FlightData_init (lines s))
           @ [Ended (uniqueID s) (averageConsumption (flight s))]"
    and "newline \<notin> set (uniqueID s)"
    and "\<forall>l\<in>set (lines s). newline \<notin> set l"
proof -
  from assms obtain buf sock1 where r: "read_id [] sock = Some (buf, sock1)"
    by (auto simp: handleClient_def split: option.splits)
  from read_id_Some[OF r] have nl: "newline \<in> set buf" and bs: "buf @ buffered sock1 = buffered sock"
    by auto
  from nl obtain p where p: "find_char newline buf = Some p"
    by (cases "find_char newline buf") (auto simp: find_char_None)
  define ident where "ident = take p buf"
  define buf1 where "buf1 = drop (p + 1) buf"
  obtain fl buf2 ls out where sl:
    "stream_loop E ident FlightData_init buf1 sock1 = (fl, buf2, ls, out)"
    by (cases "stream_loop E ident FlightData_init buf1 sock1") auto
  from assms r p sl have s: "s = \<lparr>uniqueID = ident, flight = fl, recvBuffer = buf2, lines = ls,
        written = Connected ident # out @ [Ended ident (averageConsumption fl)]\<rparr>"
    by (auto simp: handleClient_def substr0_def erase0_succ_def ident_def buf1_def Let_def)
  have split: "buf = ident @ newline # buf1" and nid: "newline \<notin> set ident"
    using find_char_Some[OF p] by (simp_all add: ident_def buf1_def)
  have id: "ident = takeWhile (\<lambda>c. c \<noteq> newline) (buffered sock)"
    unfolding bs[symmetric] split using nid by (simp add: takeWhile_before)
  have "terminated ls @ buf2 = buf1 @ buffered sock1
      \<and> fl = fst (process_lines E ident FlightData_init ls)
      \<and> out = snd (process_lines E ident FlightData_init ls)
      \<and> (\<forall>l\<in>set ls. newline \<notin> set l)"
  proof (cases "delivered sock1 = []")
    case True
    with sl show ?thesis
      by (simp add: stream_loop_batch buffered_empty terminated_def)
  next
    case False
    with sl have pb: "process_buffer E ident FlightData_init (buf1 @ buffered sock1) = (fl, buf2, ls, out)"
      by (simp add: stream_loop_batch)
    from process_buffer_frames[OF pb] process_buffer_lines[OF pb] show ?thesis by simp
  qed
  then have rt: "terminated ls @ buf2 = buf1 @ buffered sock1"
    and f: "fl = fst (process_lines E ident FlightData_init ls)"
    and out: "out = snd (process_lines E ident FlightData_init ls)"
    and nls: "\<forall>l\<in>set ls. newline \<notin> set l" by auto
  show "uniqueID s = takeWhile (\<lambda>c. c \<noteq> newline) (buffered sock)" using s id by simp
  show "uniqueID s @ [newline] @ terminated (lines s) @ recvBuffer s = buffered sock"
    using s rt bs split by simp
  show "flight s = fst (process_lines E (uniqueID s) FlightData_init (lines s))"
    using s f by simp
  show "written s = Connected (uniqueID s)
           # snd (process_lines E (uniqueID s) FlightData_init (lines s))
           @ [Ended (uniqueID s) (averageConsumption (flight s))]"
    using s out by simp
  show "newline \<notin> set (uniqueID s)" using s nid by simp
  show "\<forall>l\<in>set (lines s). newline \<notin> set l" using s nls by simp
qed





lemma process_line_accepted:
  assumes "reading_of E line = Some (t, f)"
  shows "\<exists>stamp. process_line E ident fl line =
     (if firstData fl
      then (fl\<lparr>startTime := t, startFuel := f, firstData := False, lastTime := t, lastFuel := f\<rparr>, [])
      else (fl\<lparr>lastTime := t, lastFuel := f\<rparr>,
            [Reading ident stamp f (rate_between (lastTime fl, lastFuel fl) (t, f))]))"
  using assms
  by (auto simp: reading_of_def process_line_def rate_between_def double_gt0_difftime
      split: option.splits if_splits prod.splits)

section \<open>The tracker on framed lines\<close>

lemma flight_after_Nil [simp]: "flight_after [] = FlightData_init"
  by (simp add: flight_after_def)

lemma firstData_flight_after [simp]: "firstData (flight_after rs) \<longleftrightarrow> rs = []"
  by (simp add: flight_after_def FlightData_init_def)

lemma process_line_rejected:
  "reading_of E line = None \<Longrightarrow>
   process_line E ident fl line = (fl, if malformed E line then [ParseFailed line] else [])"
  by (auto simp: reading_of_def process_line_def malformed_def split: option.splits if_splits)

lemma process_line_flight:
  "fst (process_line E ident (flight_after rs) line) = flight_after (rs @ readings E [line])"
proof (cases "reading_of E line")
  case None
  then show ?thesis
    by (simp add: process_line_rejected)
next
  case (Some r)
  obtain t f where r: "r = (t, f)" by (cases r)
  from process_line_accepted[OF Some[unfolded r], of ident "flight_after rs"]
  show ?thesis using Some r
    by (auto simp: flight_after_def FlightData_init_def)
qed

lemma readings_append: "readings E (xs @ ys) = readings E xs @ readings E ys"
  by (induction xs) (auto split: option.splits)

lemma process_lines_flight:
  "fst (process_lines E ident (flight_after rs) ls) = flight_after (rs @ readings E ls)"
proof (induction ls arbitrary: rs)
  case Nil
  then show ?case by simp
next
  case (Cons l ls)
  obtain fl1 out1 where pl: "process_line E ident (flight_after rs) l = (fl1, out1)"
    by (cases "process_line E ident (flight_after rs) l")
  with process_line_flight[of E ident rs l] have "fl1 = flight_after (rs @ readings E [l])"
    by simp
  moreover have "readings E (l # ls) = readings E [l] @ readings E ls"
    using readings_append[of E "[l]" ls] by simp
  ultimately show ?case
    using pl Cons.IH[of "rs @ readings E [l]"]
    by (simp del: readings.simps add: case_prod_beta)
qed

lemma rates_append: "rates (xs @ ys) = rates xs @ rates ys"
  by (induction xs rule: rates.induct) auto


lemma consecutive_snoc:
  "rs \<noteq> [] \<Longrightarrow> zip (rs @ [x]) (tl (rs @ [x])) = zip rs (tl rs) @ [(last rs, x)]"
proof (induction rs)
  case Nil
  then show ?case by simp
next
  case (Cons r rs)
  then show ?case by (cases rs) auto
qed

lemma consecutive_snoc':
  "rs \<noteq> [] \<Longrightarrow> zip (rs @ [x]) (tl rs @ [x]) = zip rs (tl rs) @ [(last rs, x)]"
  using consecutive_snoc[of rs x] by simp

lemma process_line_rates:
  "rates (snd (process_line E ident (flight_after rs) line)) =
     (case reading_of E line of
        None \<Rightarrow> []
      | Some r \<Rightarrow> if rs = [] then [] else [rate_between (last rs) r])"
proof (cases "reading_of E line")
  case None
  then show ?thesis
    by (simp add: process_line_rejected)
next
  case (Some r)
  obtain t f where r: "r = (t, f)" by (cases r)
  from process_line_accepted[OF Some[unfolded r], of ident "flight_after rs"]
  show ?thesis using Some r
    by (auto simp: flight_after_def FlightData_init_def)
qed

lemma process_lines_rates:
  "map (\<lambda>(prev, cur). rate_between prev cur) (zip rs (tl rs))
     @ rates (snd (process_lines E ident (flight_after rs) ls)) =
   map (\<lambda>(prev, cur). rate_between prev cur)
     (zip (rs @ readings E ls) (tl (rs @ readings E ls)))"
proof (induction ls arbitrary: rs)
  case Nil
  then show ?case by simp
next
  case (Cons l ls)
  obtain fl1 out1 where pl: "process_line E ident (flight_after rs) l = (fl1, out1)"
    by (cases "process_line E ident (flight_after rs) l")
  with process_line_flight[of E ident rs l] have fl1: "fl1 = flight_after (rs @ readings E [l])"
    by simp
  from pl process_line_rates[of E ident rs l]
  have out1: "rates out1 = (case reading_of E l of None \<Rightarrow> []
      | Some r \<Rightarrow> if rs = [] then [] else [rate_between (last rs) r])" by simp
  show ?case
  proof (cases "reading_of E l")
    case None
    with pl fl1 out1 Cons.IH[of rs] show ?thesis
      by (simp add: rates_append case_prod_beta)
  next
    case (Some r)
    with pl fl1 out1 Cons.IH[of "rs @ [r]"] show ?thesis
      by (cases "rs = []") (simp_all add: rates_append consecutive_snoc' case_prod_beta)
  qed
qed


lemma sample_run: "handleClient sample_externals sample_socket = Some sample_session"
  by code_simp

lemma sample_readings:
  "readings sample_externals (lines sample_session) = [(0, 100), (10, 95), (20, 88)]"
  by code_simp

lemma c_str_id: "NUL \<notin> set chunk \<Longrightarrow> c_str chunk = chunk"
  by (auto simp: c_str_def takeWhile_eq_all_conv)

lemma buffered_received:
  assumes "NUL \<notin> set (received sock)"
  shows "buffered sock = received sock"
proof -
  from assms have "\<forall>chunk\<in>set (delivered sock). NUL \<notin> set chunk"
    by (auto simp: received_def)
  then have "map c_str (delivered sock) = delivered sock"
    by (intro map_idI) (simp add: c_str_id)
  then show ?thesis by (simp add: buffered_def received_def)
qed

lemma averageConsumption_eq:
  "averageConsumption fl =
     (if lastTime fl - startTime fl > 0
      then double_div (double_sub (startFuel fl) (lastFuel fl))
             (difftime (lastTime fl) (startTime fl))
      else Finite 0)"
  by (simp add: averageConsumption_def double_gt0_difftime)

lemma handleClient_flight:
  "handleClient E sock = Some s \<Longrightarrow> flight s = flight_after (readings E (lines s))"
  using handleClient_lines(3)[of E sock s] process_lines_flight[of E "uniqueID s" "[]" "lines s"]
  by simp

lemma single_run: "handleClient sample_externals single_socket = Some single_session"
  by code_simp

lemma single_readings: "readings sample_externals (lines single_session) = [(10, 95)]"
  by code_simp



lemma sample_no_NUL: "NUL \<notin> set (received sample_socket)"
  by code_simp

lemma process_line_entries:
  "e \<in> set (snd (process_line E ident fl line)) \<Longrightarrow>
     (\<exists>l. e = ParseFailed l) \<or> (\<exists>stamp fuel rate. e = Reading ident stamp fuel rate)"
  by (auto simp: process_line_def Let_def split: if_splits option.splits prod.splits)

lemma process_lines_entries:
  "e \<in> set (snd (process_lines E ident fl ls)) \<Longrightarrow>
     (\<exists>l. e = ParseFailed l) \<or> (\<exists>stamp fuel rate. e = Reading ident stamp fuel rate)"
proof (induction ls arbitrary: fl)
  case Nil
  then show ?case by simp
next
  case (Cons l ls)
  then show ?case
    using process_line_entries[of e E ident fl l]
    by (auto simp: case_prod_beta)
qed

lemma padded_run: "handleClient sample_externals padded_socket = Some padded_session"
  by code_simp

lemma chunk_takeWhile:
  "NUL \<notin> set (takeWhile (\<lambda>x. x \<noteq> newline) (c @ r)) \<Longrightarrow>
     takeWhile (\<lambda>x. x \<noteq> newline) (c_str c @ r') =
       (if newline \<in> set c then takeWhile (\<lambda>x. x \<noteq> newline) c
        else c @ takeWhile (\<lambda>x. x \<noteq> newline) r')
     \<and> takeWhile (\<lambda>x. x \<noteq> newline) (c @ r) =
       (if newline \<in> set c then takeWhile (\<lambda>x. x \<noteq> newline) c
        else c @ takeWhile (\<lambda>x. x \<noteq> newline) r)"
  by (induction c) (auto simp: c_str_def newline_def NUL_def)

lemma takeWhile_buffered:
  "NUL \<notin> set (takeWhile (\<lambda>x. x \<noteq> newline) (concat cs)) \<Longrightarrow>
     takeWhile (\<lambda>x. x \<noteq> newline) (concat (map c_str cs)) =
       takeWhile (\<lambda>x. x \<noteq> newline) (concat cs)"
proof (induction cs)
  case Nil
  then show ?case by simp
next
  case (Cons c cs)
  from Cons.prems have p: "NUL \<notin> set (takeWhile (\<lambda>x. x \<noteq> newline) (c @ concat cs))"
    by simp
  note ct = chunk_takeWhile[OF p, of "concat (map c_str cs)"]
  show ?case
  proof (cases "newline \<in> set c")
    case True
    with ct show ?thesis by simp
  next
    case False
    with ct p have "NUL \<notin> set (takeWhile (\<lambda>x. x \<noteq> newline) (concat cs))" by simp
    from Cons.IH[OF this] ct False show ?thesis by simp
  qed
qed

lemma overflow_run:
  "handleClient overflow_externals [''N12AB\<newline>'', ''lo\<newline>hi\<newline>''] =
     Some \<lparr>uniqueID = ''N12AB'',
            flight = \<lparr>startTime = 0, startFuel = - huge, lastTime = 10, lastFuel = huge,
                       firstData = False\<rparr>,
            recvBuffer = [], lines = [''lo'', ''hi''],
            written = [Connected ''N12AB'', Reading ''N12AB'' (clock 10) huge NegInf,
                       Ended ''N12AB'' NegInf]\<rparr>"
  by code_simp

lemma overflow_readings:
  "readings overflow_externals [''lo'', ''hi''] = [(0, - huge), (10, huge)]"
  by code_simp

lemma asctime_newline: "asctime stamp = butlast (asctime stamp) @ [newline]"
  by (simp add: asctime_def butlast_append)

section \<open>The claims\<close>

text \<open>
  C1. As the claim states it, with "never produces an infinite value", the property
  fails: nothing bounds the fuels, and the difference of two finite fuels can overflow.
  For the fuels \<open>- 2 ^ 1023\<close> and \<open>2 ^ 1023\<close>, ten seconds apart, the fuel consumed is
  \<open>- 2 ^ 1024\<close>, beyond the largest double, and the rate written (and the average of the
  summary) is minus infinity.
\<close>

theorem rate_overflows:
  "handleClient overflow_externals [''N12AB\<newline>'', ''lo\<newline>hi\<newline>''] =
     Some \<lparr>uniqueID = ''N12AB'',
            flight = \<lparr>startTime = 0, startFuel = - huge, lastTime = 10, lastFuel = huge,
                       firstData = False\<rparr>,
            recvBuffer = [], lines = [''lo'', ''hi''],
            written = [Connected ''N12AB'', Reading ''N12AB'' (clock 10) huge NegInf,
                       Ended ''N12AB'' NegInf]\<rparr>
   \<and> readings overflow_externals [''lo'', ''hi''] = [(0, - huge), (10, huge)]
   \<and> huge = 2 ^ 1023 \<and> huge < overflow_threshold"
  by (intro conjI) (rule overflow_run overflow_readings huge_def huge_below_threshold)+

text \<open>
  C1, amended. In every session, the rates of the per-reading entries written are, in
  order, those of the consecutive pairs of accepted readings: for the previous reading
  \<open>(lastTime, lastFuel)\<close> and the current one \<open>(currentTime, currentFuel)\<close> the rate is
  \<open>(lastFuel - currentFuel) / (currentTime - lastTime)\<close> in double arithmetic when the
  elapsed time is positive and \<open>0\<close> otherwise (\<open>rate_between\<close>). The handler, a total
  function, raises nothing, and the guard excludes a division by zero. A rate is finite
  whenever the fuel consumed \<open>lastFuel - currentFuel\<close>, as computed, is finite, that is
  whenever the subtraction does not overflow. The first accepted reading is the current
  one of no pair.
\<close>

theorem consumption_rates:
  assumes "handleClient E sock = Some s"
  shows "rates (written s) =
       map (\<lambda>(prev, cur). rate_between prev cur)
         (zip (readings E (lines s)) (tl (readings E (lines s))))
     \<and> (\<forall>i<length (rates (written s)).
          (\<exists>d. double_sub (snd (readings E (lines s) ! i)) (snd (readings E (lines s) ! Suc i))
                 = Finite d) \<longrightarrow>
          (\<exists>r. rates (written s) ! i = Finite r))"
proof -
  define rs where "rs = readings E (lines s)"
  from handleClient_lines(4)[OF assms]
  have "rates (written s) =
      rates (snd (process_lines E (uniqueID s) (flight_after []) (lines s)))"
    by (simp add: rates_append)
  with process_lines_rates[of "[]" E "uniqueID s" "lines s"]
  have eq: "rates (written s) = map (\<lambda>(prev, cur). rate_between prev cur) (zip rs (tl rs))"
    by (simp add: rs_def)
  have "\<exists>r. rates (written s) ! i = Finite r"
    if i: "i < length (rates (written s))"
      and b: "double_sub (snd (rs ! i)) (snd (rs ! Suc i)) = Finite d" for i d
  proof -
    from i eq have "i < length rs" "i < length (tl rs)" by simp_all
    then have "rates (written s) ! i = rate_between (rs ! i) (rs ! Suc i)"
      using eq by (simp add: nth_tl)
    with rate_between_finite[OF b] show ?thesis by simp
  qed
  with eq show ?thesis unfolding rs_def by blast
qed

theorem consumption_rates_witness:
  "handleClient sample_externals sample_socket = Some sample_session
   \<and> readings sample_externals (lines sample_session) = [(0, 100), (10, 95), (20, 88)]
   \<and> rates (written sample_session) =
       [Finite (1 / 2), Finite (3152519739159347 / 4503599627370496)]
   \<and> (0::nat) < length (rates (written sample_session))
   \<and> double_sub 100 95 = Finite 5
   \<and> rates (written sample_session) ! 0 = Finite (1 / 2)"
proof -
  have r: "rates (written sample_session) =
       [Finite (1 / 2), Finite (3152519739159347 / 4503599627370496)]"
    by (simp add: sample_session_def)
  have t: "double_sub 100 95 = Finite 5"
    by code_simp
  from consumption_rates[OF sample_run, THEN conjunct1] r sample_readings
  have "rates (written sample_session) ! 0 = Finite (1 / 2)" by simp
  with sample_run sample_readings r t show ?thesis by simp
qed

text \<open>
  C2. When the session ends, the last entry written is the summary, and its average is
  \<open>(startFuel - lastFuel) / (lastTime - startTime)\<close>, in double arithmetic, when the
  total time is positive and \<open>0\<close> otherwise: the guard excludes a division by zero and
  the step, a total function, raises nothing. With at most one accepted reading, start
  and last are equal, the total time is zero and the average is \<open>0\<close>.
\<close>

theorem average_at_session_end:
  assumes "handleClient E sock = Some s"
  shows "last (written s) =
       Ended (uniqueID s)
         (if lastTime (flight s) - startTime (flight s) > 0
          then double_div (double_sub (startFuel (flight s)) (lastFuel (flight s)))
                 (difftime (lastTime (flight s)) (startTime (flight s)))
          else Finite 0)
     \<and> (length (readings E (lines s)) \<le> 1 \<longrightarrow>
          startTime (flight s) = lastTime (flight s)
          \<and> startFuel (flight s) = lastFuel (flight s)
          \<and> last (written s) = Ended (uniqueID s) (Finite 0))"
proof -
  have w: "last (written s) = Ended (uniqueID s) (averageConsumption (flight s))"
    using handleClient_lines(4)[OF assms] by simp
  have "startTime (flight s) = lastTime (flight s) \<and> startFuel (flight s) = lastFuel (flight s)"
    if "length (readings E (lines s)) \<le> 1"
  proof (cases "readings E (lines s)")
    case Nil
    then show ?thesis
      using handleClient_flight[OF assms] by (simp add: FlightData_init_def)
  next
    case (Cons r rs)
    with that have "rs = []" by simp
    with Cons show ?thesis
      using handleClient_flight[OF assms] by (simp add: flight_after_def)
  qed
  with w show ?thesis by (simp add: averageConsumption_eq)
qed

theorem average_at_session_end_witness:
  "handleClient sample_externals sample_socket = Some sample_session
   \<and> last (written sample_session) =
       Ended ''N12AB'' (double_div (double_sub 100 88) (difftime 20 0))
   \<and> double_div (double_sub 100 88) (difftime 20 0) =
       Finite (5404319552844595 / 9007199254740992)
   \<and> handleClient sample_externals single_socket = Some single_session
   \<and> length (readings sample_externals (lines single_session)) \<le> 1
   \<and> startTime (flight single_session) = lastTime (flight single_session)
   \<and> startFuel (flight single_session) = lastFuel (flight single_session)
   \<and> last (written single_session) = Ended ''N12AB'' (Finite 0)"
proof -
  have "last (written sample_session) =
       Ended ''N12AB'' (double_div (double_sub 100 88) (difftime 20 0))"
    using average_at_session_end[OF sample_run, THEN conjunct1]
    by (simp add: sample_session_def)
  moreover from this have "double_div (double_sub 100 88) (difftime 20 0) =
       Finite (5404319552844595 / 9007199254740992)"
    by (simp add: sample_session_def)
  moreover have "length (readings sample_externals (lines single_session)) \<le> 1"
    by (simp add: single_readings)
  moreover from this have "startTime (flight single_session) = lastTime (flight single_session)
      \<and> startFuel (flight single_session) = lastFuel (flight single_session)
      \<and> last (written single_session) = Ended ''N12AB'' (Finite 0)"
    using average_at_session_end[OF single_run, THEN conjunct2]
    by (simp add: single_session_def)
  ultimately show ?thesis
    using sample_run single_run by simp
qed

text \<open>
  C3. In a session whose accepted readings are \<open>r # rs\<close>, that is \<open>N = length rs + 1\<close> of
  them, the number of per-reading entries written is \<open>length rs = N - 1\<close>; the first
  reading \<open>r\<close> is the start, and with \<open>rs = []\<close> it is the last as well and no
  per-reading entry is written.
\<close>

theorem events_per_reading:
  assumes "handleClient E sock = Some s" and "readings E (lines s) = r # rs"
  shows "length (rates (written s)) = length rs
     \<and> startTime (flight s) = fst r \<and> startFuel (flight s) = snd r
     \<and> lastTime (flight s) = fst (last (r # rs)) \<and> lastFuel (flight s) = snd (last (r # rs))"
proof -
  from handleClient_lines(4)[OF assms(1)]
  have "rates (written s) =
      rates (snd (process_lines E (uniqueID s) (flight_after []) (lines s)))"
    by (simp add: rates_append)
  with process_lines_rates[of "[]" E "uniqueID s" "lines s"] assms(2)
  have "length (rates (written s)) = length rs" by simp
  with handleClient_flight[OF assms(1)] assms(2) show ?thesis
    by (simp add: flight_after_def)
qed

theorem events_per_reading_witness:
  "handleClient sample_externals single_socket = Some single_session
   \<and> readings sample_externals (lines single_session) = [(10, 95)]
   \<and> rates (written single_session) = []
   \<and> startTime (flight single_session) = 10 \<and> startFuel (flight single_session) = 95
   \<and> lastTime (flight single_session) = 10 \<and> lastFuel (flight single_session) = 95
   \<and> handleClient sample_externals sample_socket = Some sample_session
   \<and> readings sample_externals (lines sample_session) = [(0, 100), (10, 95), (20, 88)]
   \<and> length (rates (written sample_session)) = 2"
  using events_per_reading[OF single_run single_readings]
    events_per_reading[OF sample_run sample_readings]
    single_run single_readings sample_run sample_readings
  by simp

text \<open>
  C4. As the claim states it, for every sequence of chunks, the property fails: a chunk
  is appended to the buffer as a C string, so the bytes from its first NUL on never reach
  the buffer. Here the second chunk is \<^verbatim>\<open>0,1\<close>, a NUL and \<^verbatim>\<open>00\<close> with its newline:
  only \<^verbatim>\<open>0,1\<close> is kept.
\<close>

theorem framing_drops_bytes_after_NUL:
  "handleClient sample_externals [''N12AB\<newline>'', ''0,1'' @ NUL # ''00\<newline>''] =
     Some \<lparr>uniqueID = ''N12AB'', flight = FlightData_init, recvBuffer = ''0,1'',
            lines = [], written = [Connected ''N12AB'', Ended ''N12AB'' (Finite 0)]\<rparr>
   \<and> ''N12AB'' @ [newline] @ terminated [] @ ''0,1''
       \<noteq> received [''N12AB\<newline>'', ''0,1'' @ NUL # ''00\<newline>'']"
  by code_simp

text \<open>
  C4, amended. For every sequence of chunks of which none holds a NUL (no NUL among the
  bytes received), however the input is split. The outer loop, started with any buffer:
  the records taken, each followed by a newline, and then the buffer left are exactly the
  starting buffer followed by the bytes received, in order. The handler: the identifier
  and the records taken, each followed by a newline, and then the buffer left at the end
  are exactly the bytes received. Neither the identifier nor a record holds a newline.
\<close>

theorem framing_round_trip:
  assumes "NUL \<notin> set (received sock)"
  shows "(\<forall>fl' carry ls out. stream_loop E ident fl buf sock = (fl', carry, ls, out) \<longrightarrow>
            terminated ls @ carry = buf @ received sock \<and> (\<forall>l\<in>set ls. newline \<notin> set l))
     \<and> (\<forall>s. handleClient E sock = Some s \<longrightarrow>
            uniqueID s @ [newline] @ terminated (lines s) @ recvBuffer s = received sock
            \<and> newline \<notin> set (uniqueID s) \<and> (\<forall>l\<in>set (lines s). newline \<notin> set l))"
  using stream_loop_frames[of E ident fl buf sock] handleClient_lines(2,5,6)[of E sock]
    buffered_received[OF assms]
  by simp

theorem framing_round_trip_witness:
  "NUL \<notin> set (received sample_socket)
   \<and> handleClient sample_externals sample_socket = Some sample_session
   \<and> ''N12AB'' @ [newline] @ terminated [''0,100'', ''10,95'', ''junk'', ''  '', ''20,88'']
         @ ''tail'' = received sample_socket"
proof -
  from framing_round_trip[OF sample_no_NUL, THEN conjunct2] sample_run
  have "uniqueID sample_session @ [newline] @ terminated (lines sample_session)
      @ recvBuffer sample_session = received sample_socket" by simp
  then have "''N12AB'' @ [newline] @ terminated [''0,100'', ''10,95'', ''junk'', ''  '', ''20,88'']
         @ ''tail'' = received sample_socket"
    by (simp add: sample_session_def)
  with sample_run sample_no_NUL show ?thesis by simp
qed

text \<open>
  C5. The bytes after the identifier's newline stay in the buffer, but the inner loop
  runs only after a later call of \<^verbatim>\<open>recv\<close> returns bytes. When the identifier and two
  complete records arrive in one chunk and the client then closes, no record is
  processed: the records are left in the buffer and the summary reports \<open>0\<close>. The same
  bytes with the records in a second chunk give one per-reading entry and the average
  \<open>1/2\<close>.
\<close>

theorem records_with_identifier_unprocessed:
  "handleClient sample_externals [''N12AB\<newline>0,100\<newline>10,95\<newline>''] =
     Some \<lparr>uniqueID = ''N12AB'', flight = FlightData_init,
            recvBuffer = ''0,100\<newline>10,95\<newline>'', lines = [],
            written = [Connected ''N12AB'', Ended ''N12AB'' (Finite 0)]\<rparr>
   \<and> handleClient sample_externals [''N12AB\<newline>'', ''0,100\<newline>10,95\<newline>''] =
     Some \<lparr>uniqueID = ''N12AB'',
            flight = \<lparr>startTime = 0, startFuel = 100, lastTime = 10, lastFuel = 95,
                       firstData = False\<rparr>,
            recvBuffer = [], lines = [''0,100'', ''10,95''],
            written = [Connected ''N12AB'',
                       Reading ''N12AB'' (clock 10) 95 (Finite (1 / 2)),
                       Ended ''N12AB'' (Finite (1 / 2))]\<rparr>"
  by code_simp



text \<open>
  C7. When a session ends its flight data are those its accepted readings determine
  (\<open>flight_after\<close>): the start is the first accepted reading, the last is the most recent
  one. Processing one more line from there gives the flight data of the readings with
  that line's reading added, when it is accepted: the last follows, the start stays.
\<close>

theorem flight_tracks_readings:
  assumes "handleClient E sock = Some s"
  shows "flight s = flight_after (readings E (lines s))
     \<and> fst (process_line E ident (flight s) line) = flight_after (readings E (lines s @ [line]))"
  using handleClient_flight[OF assms]
    process_line_flight[of E ident "readings E (lines s)" line]
  by (simp add: readings_append)

theorem flight_tracks_readings_witness:
  "handleClient sample_externals sample_socket = Some sample_session
   \<and> readings sample_externals (lines sample_session) = [(0, 100), (10, 95), (20, 88)]
   \<and> flight sample_session =
       \<lparr>startTime = 0, startFuel = 100, lastTime = 20, lastFuel = 88, firstData = False\<rparr>"
  using flight_tracks_readings[OF sample_run, THEN conjunct1] sample_run sample_readings
  by (simp add: flight_after_def)

text \<open>
  C8. The text of a per-reading entry holds a newline before its final \<^verbatim>\<open>endl\<close>, for
  every identifier, time, fuel and rate: the result of \<^verbatim>\<open>asctime\<close> ends with one. The
  reporting sink receives two lines, the second starting with \<^verbatim>\<open> Fuel Remaining:\<close>; the
  second conjunct is the text for the second reading of the sample session.
\<close>

theorem reading_text_has_line_break:
  "newline \<in> set (butlast (cout_text show_double (Reading ident stamp fuel rate)))
   \<and> cout_text show_double (Reading ''N12AB'' (clock 10) 95 (Finite (1 / 2))) =
       ''Airplane N12AB | Thu Jan 15 00:00:10 1970\<newline> Fuel Remaining: ''
         @ show_double (Finite 95) @ '' | Current Consumption: '' @ show_double (Finite (1 / 2))
         @ '' fuel/sec\<newline>''"
proof
  have "newline \<in> set (asctime stamp)"
    by (subst asctime_newline) simp
  then show "newline \<in> set (butlast (cout_text show_double (Reading ident stamp fuel rate)))"
    by (simp add: butlast_append)
  show "cout_text show_double (Reading ''N12AB'' (clock 10) 95 (Finite (1 / 2))) =
       ''Airplane N12AB | Thu Jan 15 00:00:10 1970\<newline> Fuel Remaining: ''
         @ show_double (Finite 95) @ '' | Current Consumption: '' @ show_double (Finite (1 / 2))
         @ '' fuel/sec\<newline>''"
    by code_simp
qed

text \<open>
  C10. As the claim states it, for any input and every output line, the property
  fails. A chunk is appended as a C string: for the chunks \<^verbatim>\<open>AB\<close>, NUL, \<^verbatim>\<open>CD\<close>, newline
  and then \<^verbatim>\<open>EF\<close>, newline, the bytes before the first newline are \<^verbatim>\<open>AB\<close>, NUL,
  \<^verbatim>\<open>CD\<close>, and the identifier is \<^verbatim>\<open>ABEF\<close>. And the parse-failure line of the sample
  session does not hold the identifier.
\<close>

theorem identifier_not_verbatim:
  "handleClient sample_externals [''AB'' @ NUL # ''CD\<newline>'', ''EF\<newline>''] =
     Some \<lparr>uniqueID = ''ABEF'', flight = FlightData_init, recvBuffer = [],
            lines = [], written = [Connected ''ABEF'', Ended ''ABEF'' (Finite 0)]\<rparr>
   \<and> takeWhile (\<lambda>c. c \<noteq> newline) (received [''AB'' @ NUL # ''CD\<newline>'', ''EF\<newline>''])
       = ''AB'' @ NUL # ''CD''
   \<and> ''AB'' @ NUL # ''CD'' \<noteq> ''ABEF''
   \<and> handleClient sample_externals sample_socket = Some sample_session
   \<and> ParseFailed ''junk'' \<in> set (written sample_session)
   \<and> \<not> sublist (uniqueID sample_session) (cout_text (\<lambda>x. []) (ParseFailed ''junk''))"
  by code_simp

text \<open>
  C10, amended. For every input with no NUL before its first newline, the identifier
  is the bytes received before the first newline, none removed: white space and a
  carriage return before the newline stay, and a NUL after the first newline does not
  matter. For every input, the log is the connection entry with the identifier, then
  entries that are parse failures (which carry the record, not the identifier) or
  per-reading entries with the identifier, then the summary with the identifier;
  \<open>cout_text\<close> writes the identifier of an entry as it is.
\<close>

theorem identifier_verbatim:
  assumes "handleClient E sock = Some s"
  shows "(NUL \<notin> set (takeWhile (\<lambda>c. c \<noteq> newline) (received sock)) \<longrightarrow>
            uniqueID s = takeWhile (\<lambda>c. c \<noteq> newline) (received sock))
     \<and> (\<exists>out. written s =
            Connected (uniqueID s) # out @ [Ended (uniqueID s) (averageConsumption (flight s))]
          \<and> (\<forall>e\<in>set out. (\<exists>line. e = ParseFailed line)
                \<or> (\<exists>stamp fuel rate. e = Reading (uniqueID s) stamp fuel rate)))"
proof -
  have "uniqueID s = takeWhile (\<lambda>c. c \<noteq> newline) (received sock)"
    if "NUL \<notin> set (takeWhile (\<lambda>c. c \<noteq> newline) (received sock))"
    using handleClient_lines(1)[OF assms] takeWhile_buffered[of "delivered sock"] that
    by (simp add: buffered_def received_def)
  moreover have "\<exists>out. written s =
            Connected (uniqueID s) # out @ [Ended (uniqueID s) (averageConsumption (flight s))]
          \<and> (\<forall>e\<in>set out. (\<exists>line. e = ParseFailed line)
                \<or> (\<exists>stamp fuel rate. e = Reading (uniqueID s) stamp fuel rate))"
    using handleClient_lines(4)[OF assms] process_lines_entries[of _ E "uniqueID s"]
    by blast
  ultimately show ?thesis by simp
qed

theorem identifier_verbatim_witness:
  "handleClient sample_externals padded_socket = Some padded_session
   \<and> NUL \<in> set (received padded_socket)
   \<and> NUL \<notin> set (takeWhile (\<lambda>c. c \<noteq> newline) (received padded_socket))
   \<and> uniqueID padded_session = ''  N12AB '' @ [CHR 0x0D]
   \<and> takeWhile (\<lambda>c. c \<noteq> newline) (received padded_socket) = ''  N12AB '' @ [CHR 0x0D]"
proof -
  have 1: "NUL \<in> set (received padded_socket)"
    "NUL \<notin> set (takeWhile (\<lambda>c. c \<noteq> newline) (received padded_socket))"
    by code_simp+
  have 2: "uniqueID padded_session = ''  N12AB '' @ [CHR 0x0D]"
    by (simp add: padded_session_def)
  from identifier_verbatim[OF padded_run, THEN conjunct1] 1(2) 2
  have "takeWhile (\<lambda>c. c \<noteq> newline) (received padded_socket) = ''  N12AB '' @ [CHR 0x0D]"
    by simp
  with padded_run 1 2 show ?thesis by simp
qed

end
